theory Spec2Isabelle
  imports Main "HOL-Library.AList" "HOL-Library.List_Lexorder" "HOL-Library.Multiset"
begin

section \<open>Pitch elements\<close>

text \<open>
  Modelled from the spec: the module \<^verbatim>\<open>pitch\<close> is imported by \<^verbatim>\<open>pset.py\<close> but is not
  among the source files. The spec gives a pitch element an integer \<^verbatim>\<open>value\<close> (the attribute
  \<^verbatim>\<open>p\<close> the source reads) and a variant: 12 or 24 pitch classes per octave, or unbounded
  integer pitch. The source names the classes \<^verbatim>\<open>pitch.PitchClass12\<close> and \<^verbatim>\<open>pitch.Pitch12\<close>;
  two elements are equal iff they have the same variant and the same value, and the
  canonical ordering (what \<^verbatim>\<open>list.sort()\<close> uses) is ascending by value.
\<close>

datatype pclass = PitchClass12 | PitchClass24 | Pitch12

datatype pitch = Pitch (pcls: pclass) (pval: int)

text \<open>
  A pset is a Python \<^verbatim>\<open>set\<close> of pitch elements. It is modelled by the list of its elements
  in the order in which the set iterates them (any order; a set holds no element twice, so
  the list of a well-formed pset is \<^const>\<open>distinct\<close>). Two psets are the same set when the
  \<^const>\<open>set\<close>s of their lists are equal.
\<close>

type_synonym pset = "pitch list"

definition set_add :: "pitch \<Rightarrow> pset \<Rightarrow> pset" where
  \<comment> \<open>\<^verbatim>\<open>pset2.add(x)\<close>\<close>
  "set_add x s = (if x \<in> set s then s else s @ [x])"

definition list_sort :: "pset \<Rightarrow> pitch list" where
  \<comment> \<open>\<^verbatim>\<open>pseg = list(pset); pseg.sort()\<close>: a stable sort, ascending by value\<close>
  "list_sort pset = sort_key pval pset"

section \<open>The builtins \<^verbatim>\<open>next\<close>, \<^verbatim>\<open>iter\<close> and \<^verbatim>\<open>type\<close>\<close>

text \<open>
  Five functions of the source evaluate \<^verbatim>\<open>type(iter(next(pset)))\<close>. The objects this
  expression can meet are a set, an iterator over a set, and a pitch element. Python's
  \<^verbatim>\<open>next\<close> accepts an iterator only (a set is iterable, but it is not an iterator),
  and \<^verbatim>\<open>iter\<close> accepts an iterable only.
\<close>

datatype error = TypeError | StopIteration | OverflowError

datatype pyobj = SetObj pset | SetIterObj "pitch list" | PitchObj pitch

datatype pytype = TSet | TSetIterator | TPitch pclass

fun py_next :: "pyobj \<Rightarrow> error + pyobj" where
  "py_next (SetIterObj []) = Inl StopIteration"
| "py_next (SetIterObj (x # xs)) = Inr (PitchObj x)"
| "py_next (SetObj s) = Inl TypeError"
| "py_next (PitchObj x) = Inl TypeError"

fun py_iter :: "pyobj \<Rightarrow> error + pyobj" where
  "py_iter (SetObj s) = Inr (SetIterObj s)"
| "py_iter (SetIterObj xs) = Inr (SetIterObj xs)"
| "py_iter (PitchObj x) = Inl TypeError"

fun py_type :: "pyobj \<Rightarrow> pytype" where
  "py_type (SetObj s) = TSet"
| "py_type (SetIterObj xs) = TSetIterator"
| "py_type (PitchObj x) = TPitch (pcls x)"

fun py_call :: "pytype \<Rightarrow> int \<Rightarrow> error + pitch" where
  \<comment> \<open>\<^verbatim>\<open>t(v)\<close> for an integer \<^verbatim>\<open>v\<close>: a pitch class builds an element; \<^verbatim>\<open>set(v)\<close> and
      a set iterator's type refuse an integer\<close>
  "py_call (TPitch c) v = Inr (Pitch c v)"
| "py_call TSet v = Inl TypeError"
| "py_call TSetIterator v = Inl TypeError"

definition type_iter_next :: "pset \<Rightarrow> error + pytype" where
  \<comment> \<open>\<^verbatim>\<open>type(iter(next(pset)))\<close>\<close>
  "type_iter_next pset =
     (case py_next (SetObj pset) of
        Inl e \<Rightarrow> Inl e
      | Inr x \<Rightarrow> (case py_iter x of Inl e \<Rightarrow> Inl e | Inr it \<Rightarrow> Inr (py_type it)))"

fun collect :: "(error + 'a) list \<Rightarrow> error + 'a list" where
  \<comment> \<open>the results of a loop's iterations in order; the first failure ends the loop\<close>
  "collect [] = Inr []"
| "collect (r # rs) =
     (case r of
        Inl e \<Rightarrow> Inl e
      | Inr x \<Rightarrow> (case collect rs of Inl e \<Rightarrow> Inl e | Inr xs \<Rightarrow> Inr (x # xs)))"

section \<open>Interval analysis\<close>

text \<open>
  \<^verbatim>\<open>p_ic_matrix\<close> fills \<^verbatim>\<open>numpy.empty((n, n))\<close>, an array of 64-bit floats, with the
  Python integers \<^verbatim>\<open>abs(pseg[i].p - pseg[j].p)\<close>. Storing an integer in such an array
  converts it as \<^verbatim>\<open>float()\<close> does: to the nearest float of 53 significant bits, a tie
  going to the even one, and with \<^verbatim>\<open>OverflowError\<close> when the rounded value reaches
  \<open>2 ^ 1024\<close>. A float obtained in this way is a whole number; it is modelled by the
  integer it equals.
\<close>

fun bit_length :: "nat \<Rightarrow> nat" where
  \<comment> \<open>the number of binary digits of \<open>n\<close>, Python's \<^verbatim>\<open>n.bit_length()\<close>\<close>
  "bit_length 0 = 0"
| "bit_length (Suc n) = Suc (bit_length (Suc n div 2))"

definition round_half_even :: "nat \<Rightarrow> nat \<Rightarrow> nat" where
  \<comment> \<open>\<open>m / 2 ^ s\<close> rounded to the nearest whole number, a tie to the even one\<close>
  "round_half_even m s =
     (let q = m div 2 ^ s; r = m mod 2 ^ s
      in if 2 ^ s < 2 * r \<or> (2 * r = 2 ^ s \<and> odd q) then q + 1 else q)"

definition nearest_float :: "nat \<Rightarrow> nat" where
  \<comment> \<open>the whole number that the float nearest to \<open>m\<close> holds: \<open>m\<close> keeps its 53 leading
      binary digits, rounded, and the digits dropped become zeros\<close>
  "nearest_float m =
     (let s = bit_length m - 53 in round_half_even m s * 2 ^ s)"

definition float64_of_int :: "int \<Rightarrow> error + int" where
  "float64_of_int d =
     (let v = nearest_float (nat \<bar>d\<bar>)
      in if 2 ^ 1024 \<le> v then Inl OverflowError else Inr (sgn d * int v))"

definition p_ic_matrix :: "pset \<Rightarrow> error + int list list" where
  \<comment> \<open>the rows are filled in order, each cell in order; the first failure ends the call\<close>
  "p_ic_matrix pset =
     (let pseg = list_sort pset in
      collect (map (\<lambda>i.
          collect (map (\<lambda>j. float64_of_int \<bar>pval (pseg ! i) - pval (pseg ! j)\<bar>)
            [0..<length pset]))
        [0..<length pset]))"

text \<open>
  The ic-roster is a Python \<^verbatim>\<open>dict\<close> from interval to count: an association list in
  insertion order, which is the order in which \<^verbatim>\<open>for ic in ic_roster1\<close> visits the keys.
  Storing under a key keeps the key's place, or appends a new key.
\<close>

type_synonym roster = "(int \<times> int) list"

definition roster_count :: "int \<Rightarrow> roster \<Rightarrow> roster" where
  \<comment> \<open>\<^verbatim>\<open>if interval not in roster: roster[interval] = 1 else: roster[interval] += 1\<close>\<close>
  "roster_count interval roster =
     (case map_of roster interval of
        None \<Rightarrow> AList.update interval 1 roster
      | Some c \<Rightarrow> AList.update interval (c + 1) roster)"

definition p_ic_roster :: "pset \<Rightarrow> roster" where
  \<comment> \<open>\<^verbatim>\<open>range(len(pseg) - 1, -1, -1)\<close> and \<^verbatim>\<open>range(i - 1, -1, -1)\<close> count downwards\<close>
  "p_ic_roster pset =
     (let pseg = list_sort pset in
      fold (\<lambda>i. fold (\<lambda>j. roster_count \<bar>pval (pseg ! i) - pval (pseg ! j)\<bar>) (rev [0..<i]))
        (rev [0..<length pseg]) [])"

section \<open>Similarity\<close>

definition ic_shared_loop :: "roster \<Rightarrow> roster \<Rightarrow> int" where
  \<comment> \<open>the loop \<^verbatim>\<open>for ic in ic_roster1\<close> of \<^verbatim>\<open>pm_similarity\<close>, from \<^verbatim>\<open>ic_shared = 0\<close>\<close>
  "ic_shared_loop ic_roster1 ic_roster2 =
     fold (\<lambda>(ic, c1) ic_shared.
            case map_of ic_roster2 ic of
              None \<Rightarrow> ic_shared
            | Some c2 \<Rightarrow> if c1 < c2 then ic_shared + c1 else ic_shared + c2)
       ic_roster1 0"

definition pm_similarity :: "pset \<Rightarrow> pset \<Rightarrow> roster option \<Rightarrow> roster option \<Rightarrow> int \<times> int" where
  "pm_similarity pset1 pset2 ic_roster1 ic_roster2 =
     (let cint = int (length (filter (\<lambda>x. x \<in> set pset2) pset1));
          r1 = (case ic_roster1 of None \<Rightarrow> p_ic_roster pset1 | Some r \<Rightarrow> r);
          r2 = (case ic_roster2 of None \<Rightarrow> p_ic_roster pset2 | Some r \<Rightarrow> r)
      in (cint, ic_shared_loop r1 r2))"

section \<open>Algebraic operators\<close>

fun add_each :: "pytype \<Rightarrow> (int \<Rightarrow> int) \<Rightarrow> pitch list \<Rightarrow> pset \<Rightarrow> error + pset" where
  \<comment> \<open>\<^verbatim>\<open>for p in pset: pset2.add(t(f(p.p)))\<close>, from the set \<^verbatim>\<open>pset2\<close> built so far\<close>
  "add_each t f [] pset2 = Inr pset2"
| "add_each t f (x # xs) pset2 =
     (case py_call t (f (pval x)) of
        Inl e \<Rightarrow> Inl e
      | Inr q \<Rightarrow> add_each t f xs (set_add q pset2))"

definition invert :: "pset \<Rightarrow> error + pset" where
  "invert pset =
     (case type_iter_next pset of
        Inl e \<Rightarrow> Inl e
      | Inr t \<Rightarrow> add_each t (\<lambda>v. v * (- 1)) pset [])"

definition transpose_pset :: "pset \<Rightarrow> int \<Rightarrow> error + pset" where
  "transpose_pset pset n =
     (case type_iter_next pset of
        Inl e \<Rightarrow> Inl e
      | Inr t \<Rightarrow> add_each t (\<lambda>v. v + n) pset [])"

section \<open>Classification\<close>

definition modulus_of :: "pytype \<Rightarrow> int" where
  \<comment> \<open>\<^verbatim>\<open>12 if t == pitch.PitchClass12 else 24\<close>\<close>
  "modulus_of t = (if t = TPitch PitchClass12 then 12 else 24)"

definition pcint_intlist :: "int \<Rightarrow> pitch list \<Rightarrow> int list" where
  \<comment> \<open>the loop of \<^verbatim>\<open>pcint_class\<close> over \<^verbatim>\<open>range(1, len(pseg))\<close>\<close>
  "pcint_intlist n pseg =
     map (\<lambda>i. (pval (pseg ! i) - pval (pseg ! (i - 1))) mod n) [1..<length pseg]"

definition pcint_class :: "pset \<Rightarrow> error + int list" where
  "pcint_class pset =
     (let pseg = list_sort pset in
      case type_iter_next pset of
        Inl e \<Rightarrow> Inl e
      | Inr t \<Rightarrow> Inr (pcint_intlist (modulus_of t) pseg))"

definition fb_intlist :: "int \<Rightarrow> pset \<Rightarrow> int \<Rightarrow> int list" where
  \<comment> \<open>\<^verbatim>\<open>for p in pset: intlist.append((p.p - p0) % n)\<close>, then \<^verbatim>\<open>intlist.sort()\<close>\<close>
  "fb_intlist n pset p0 = sort (map (\<lambda>x. (pval x - p0) mod n) pset)"

definition del_first :: "int list \<Rightarrow> int list" where
  \<comment> \<open>\<^verbatim>\<open>if len(intlist) > 0: del intlist[0]\<close>\<close>
  "del_first intlist = (if length intlist > 0 then tl intlist else intlist)"

definition fb_class :: "pset \<Rightarrow> int \<Rightarrow> error + int list" where
  "fb_class pset p0 =
     (case type_iter_next pset of
        Inl e \<Rightarrow> Inl e
      | Inr t \<Rightarrow> Inr (del_first (fb_intlist (modulus_of t) pset p0)))"

section \<open>Subset enumerator\<close>

definition mask_bit :: "nat \<Rightarrow> nat \<Rightarrow> bool" where
  \<comment> \<open>the truth value of \<^verbatim>\<open>index & (1 << i)\<close>\<close>
  "mask_bit index i = (and index (push_bit i 1) \<noteq> 0)"

definition subset_row :: "pytype \<Rightarrow> pitch list \<Rightarrow> nat \<Rightarrow> nat \<Rightarrow> error + pitch list" where
  \<comment> \<open>\<^verbatim>\<open>sub[index]\<close> after the inner loop over \<^verbatim>\<open>range(len(pset))\<close>\<close>
  "subset_row t pseg n index =
     collect (map (\<lambda>i. py_call t (pval (pseg ! i))) (filter (mask_bit index) [0..<n]))"

definition subsets :: "pset \<Rightarrow> error + pitch list list" where
  \<comment> \<open>\<^verbatim>\<open>sub.sort()\<close> orders the rows as Python orders lists: lexicographically, by value\<close>
  "subsets pset =
     (let total = 2 ^ length pset in
      case type_iter_next pset of
        Inl e \<Rightarrow> Inl e
      | Inr t \<Rightarrow>
          (let pseg = list_sort pset in
           case collect (map (subset_row t pseg (length pset)) [0..<total]) of
             Inl e \<Rightarrow> Inl e
           | Inr sub \<Rightarrow> Inr (sort_key (map pval) sub)))"

section \<open>Auxiliary notions for the proofs\<close>

definition cell_value :: "pset \<Rightarrow> nat \<Rightarrow> nat \<Rightarrow> int" where
  \<comment> \<open>the integer \<^verbatim>\<open>abs(pseg[i].p - pseg[j].p)\<close> that \<^verbatim>\<open>p_ic_matrix\<close> stores in cell \<open>i\<close>, \<open>j\<close>\<close>
  "cell_value pset i j = \<bar>pval (list_sort pset ! i) - pval (list_sort pset ! j)\<bar>"

definition in_float_range :: "pset \<Rightarrow> bool" where
  \<comment> \<open>every difference of two values of the pset is below the least integer whose
      conversion to a float overflows\<close>
  "in_float_range pset \<longleftrightarrow>
     list_all (\<lambda>x. list_all (\<lambda>y. \<bar>pval x - pval y\<bar> < 2 ^ 1024 - 2 ^ 970) pset) pset"

definition pair_intervals :: "pitch list \<Rightarrow> int list" where
  \<comment> \<open>the intervals that the double loop of \<^verbatim>\<open>p_ic_roster\<close> counts, in the loop's order\<close>
  "pair_intervals pseg =
     concat (map (\<lambda>i. map (\<lambda>j. \<bar>pval (pseg ! i) - pval (pseg ! j)\<bar>) (rev [0..<i]))
       (rev [0..<length pseg]))"

definition shared :: "int \<Rightarrow> int \<Rightarrow> roster \<Rightarrow> int" where
  \<comment> \<open>what the loop of \<^verbatim>\<open>pm_similarity\<close> adds for the key \<open>k\<close> with count \<open>c1\<close>\<close>
  "shared k c1 r2 = (case map_of r2 k of None \<Rightarrow> 0 | Some c2 \<Rightarrow> min c1 c2)"

definition row_values :: "pitch list \<Rightarrow> nat \<Rightarrow> int list" where
  \<comment> \<open>the values of the row that the inner loop of \<^verbatim>\<open>subsets\<close> builds for \<open>index\<close>\<close>
  "row_values pseg index =
     map (\<lambda>i. pval (pseg ! i)) (filter (mask_bit index) [0..<length pseg])"

section \<open>Properties of the sorted elements\<close>

lemma length_list_sort: "length (list_sort pset) = length pset"
  by (simp add: list_sort_def)

lemma sorted_list_sort: "sorted (map pval (list_sort pset))"
  by (simp add: list_sort_def sorted_sort_key)

lemma mset_list_sort: "mset (list_sort pset) = mset pset"
  by (simp add: list_sort_def)

section \<open>Properties of the interval-class matrix\<close>

lemma bit_length_le: "n < 2 ^ k \<Longrightarrow> bit_length n \<le> k"
proof (induction n arbitrary: k rule: bit_length.induct)
  case 1
  then show ?case by simp
next
  case (2 n)
  then obtain k' where k: "k = Suc k'" by (cases k) auto
  with "2.prems" have "Suc n div 2 < 2 ^ k'" by simp
  then have "bit_length (Suc n div 2) \<le> k'" by (rule "2.IH")
  with k show ?case by simp
qed

lemma bit_length_upper: "n < 2 ^ bit_length n"
proof (induction n rule: bit_length.induct)
  case 1
  then show ?case by simp
next
  case (2 n)
  have "Suc n < 2 * (Suc n div 2 + 1)" by simp
  also have "\<dots> \<le> 2 * 2 ^ bit_length (Suc n div 2)" using "2.IH" by simp
  finally show ?case by simp
qed

lemma bit_length_lower: "0 < n \<Longrightarrow> 2 ^ (bit_length n - 1) \<le> n"
proof (induction n rule: bit_length.induct)
  case 1
  then show ?case by simp
next
  case (2 n)
  show ?case
  proof (cases "Suc n div 2 = 0")
    case True
    then show ?thesis by simp
  next
    case False
    then have "2 ^ (bit_length (Suc n div 2) - 1) \<le> Suc n div 2" using "2.IH" by simp
    moreover have "0 < bit_length (Suc n div 2)" using False by (cases "Suc n div 2") simp_all
    ultimately have "2 ^ bit_length (Suc n div 2) \<le> 2 * (Suc n div 2)"
      by (cases "bit_length (Suc n div 2)") simp_all
    also have "\<dots> \<le> Suc n" by simp
    finally show ?thesis by simp
  qed
qed

lemma bit_length_eq:
  assumes "2 ^ k \<le> n" and "n < 2 ^ Suc k"
  shows "bit_length n = Suc k"
proof -
  have "bit_length n \<le> Suc k" using assms(2) by (rule bit_length_le)
  moreover have "(2::nat) ^ k < 2 ^ bit_length n"
    using assms(1) bit_length_upper [of n] by (rule le_less_trans)
  then have "k < bit_length n" by simp
  ultimately show ?thesis by simp
qed

lemma round_half_even_bounds:
  "m div 2 ^ s \<le> round_half_even m s" "round_half_even m s \<le> m div 2 ^ s + 1"
  by (simp_all add: round_half_even_def Let_def)

lemma round_half_even_0 [simp]: "round_half_even m 0 = m"
  by (simp add: round_half_even_def)

lemma nearest_float_small: "m < 2 ^ 53 \<Longrightarrow> nearest_float m = m"
proof -
  assume "m < 2 ^ 53"
  then have "bit_length m \<le> 53" by (rule bit_length_le)
  then show ?thesis by (simp add: nearest_float_def)
qed

lemma nearest_float_2_53: "nearest_float 9007199254740992 = 9007199254740992"
proof -
  have "bit_length 9007199254740992 = Suc 53" by (rule bit_length_eq) simp_all
  then show ?thesis by (simp add: nearest_float_def round_half_even_def)
qed

lemma nearest_float_2_53_1: "nearest_float 9007199254740993 = 9007199254740992"
proof -
  have "bit_length 9007199254740993 = Suc 53" by (rule bit_length_eq) simp_all
  then show ?thesis by (simp add: nearest_float_def round_half_even_def)
qed

lemma nearest_float_exact: "m \<le> 2 ^ 53 \<Longrightarrow> nearest_float m = m"
proof -
  assume "m \<le> 2 ^ 53"
  then consider "m < 2 ^ 53" | "m = 9007199254740992" by fastforce
  then show ?thesis by cases (simp_all add: nearest_float_small nearest_float_2_53)
qed

lemma quotient_less: "m div 2 ^ (bit_length m - 53) < 2 ^ 53"
proof -
  let ?s = "bit_length m - 53"
  have "m < 2 ^ bit_length m" by (rule bit_length_upper)
  also have "(2::nat) ^ bit_length m \<le> 2 ^ (53 + ?s)" by (rule power_increasing) simp_all
  finally have "m < 2 ^ 53 * 2 ^ ?s" by (simp only: power_add)
  then show ?thesis by (rule less_mult_imp_div_less)
qed

lemma nearest_float_le: "nearest_float m \<le> 2 ^ (53 + (bit_length m - 53))"
proof -
  let ?s = "bit_length m - 53"
  have "round_half_even m ?s \<le> m div 2 ^ ?s + 1" by (rule round_half_even_bounds)
  also have "\<dots> \<le> 2 ^ 53" using quotient_less [of m] by simp
  finally have "round_half_even m ?s * 2 ^ ?s \<le> 2 ^ 53 * 2 ^ ?s" by (rule mult_le_mono1)
  then show ?thesis by (simp only: nearest_float_def Let_def power_add)
qed

lemma nearest_float_ge: "2 ^ (bit_length m - 1) \<le> nearest_float m" if "53 \<le> bit_length m"
proof -
  let ?s = "bit_length m - 53"
  have pos: "0 < m" using that by (cases m) simp_all
  have e: "bit_length m - 1 = 52 + ?s" using that by simp
  have "2 ^ 52 * 2 ^ ?s \<le> m" using bit_length_lower [OF pos] by (simp only: e power_add)
  then have "2 ^ 52 \<le> m div 2 ^ ?s" by (simp add: less_eq_div_iff_mult_less_eq)
  also have "\<dots> \<le> round_half_even m ?s" by (rule round_half_even_bounds)
  finally have "2 ^ 52 * 2 ^ ?s \<le> round_half_even m ?s * 2 ^ ?s" by (rule mult_le_mono1)
  then show ?thesis by (simp only: nearest_float_def Let_def e power_add)
qed

lemma nearest_float_top:
  assumes bl: "bit_length m = 1024"
  shows "2 ^ 1024 \<le> nearest_float m \<longleftrightarrow> 2 ^ 1024 - 2 ^ 970 \<le> m"
proof -
  define B :: nat where "B = 2 ^ 970"
  define q where "q = m div (2 * B)"
  define r where "r = m mod (2 * B)"
  have B: "0 < B" by (simp add: B_def)
  have p971: "(2::nat) ^ 971 = 2 * B" by (simp add: B_def)
  have p1024: "(2::nat) ^ 1024 = 18014398509481984 * B" by (simp add: B_def)
  have T: "(2::nat) ^ 1024 - 2 ^ 970 = 18014398509481983 * B" by (simp add: B_def)
  have s: "bit_length m - 53 = 971" using bl by simp
  have m: "m = q * (2 * B) + r" unfolding q_def r_def by (rule div_mult_mod_eq [symmetric])
  have r: "r < 2 * B" using B by (simp add: r_def)
  have "m div 2 ^ 971 < 2 ^ 53" using quotient_less [of m] by (simp only: s)
  then have "q < 2 ^ 53" by (simp only: q_def p971)
  then have q: "q < 9007199254740992" by simp
  have nf: "nearest_float m
      = (if 2 * B < 2 * r \<or> (2 * r = 2 * B \<and> odd q) then q + 1 else q) * (2 * B)"
    unfolding nearest_float_def round_half_even_def Let_def s p971 q_def r_def ..
  have red: "(2 ^ 1024 \<le> nearest_float m \<longleftrightarrow> 2 ^ 1024 - 2 ^ 970 \<le> m)
      = (18014398509481984 * B \<le> nearest_float m \<longleftrightarrow> 18014398509481983 * B \<le> m)"
    by (simp only: T, simp only: p1024)
  have main: "18014398509481984 * B \<le> nearest_float m \<longleftrightarrow> 18014398509481983 * B \<le> m"
  proof (cases "q = 9007199254740991")
    case True
    then have oq: "odd q" by simp
    have mm: "m = 18014398509481982 * B + r" using m True by simp
    show ?thesis
    proof (cases "B \<le> r")
      case True
      then have "2 * B < 2 * r \<or> (2 * r = 2 * B \<and> odd q)" using oq by auto
      then have "nearest_float m = (q + 1) * (2 * B)" by (simp only: nf if_True)
      then have "nearest_float m = 18014398509481984 * B" using \<open>q = 9007199254740991\<close> by simp
      moreover have "18014398509481983 * B \<le> m" using mm True by simp
      ultimately show ?thesis by simp
    next
      case False
      then have "\<not> (2 * B < 2 * r \<or> (2 * r = 2 * B \<and> odd q))" by auto
      then have "nearest_float m = q * (2 * B)" by (simp only: nf if_False)
      then have "nearest_float m = 18014398509481982 * B" using \<open>q = 9007199254740991\<close> by simp
      moreover have "\<not> 18014398509481983 * B \<le> m" using mm False by simp
      ultimately show ?thesis using B by simp
    qed
  next
    case False
    with q have q': "q + 1 \<le> 9007199254740991" by simp
    have "nearest_float m \<le> (q + 1) * (2 * B)" by (simp add: nf)
    also have "\<dots> \<le> 9007199254740991 * (2 * B)" using q' by (rule mult_le_mono1)
    finally have "nearest_float m < 18014398509481984 * B" using B by simp
    moreover have "m < 18014398509481983 * B"
    proof -
      have le: "q * (2 * B) \<le> 9007199254740990 * (2 * B)"
        using q' by (intro mult_le_mono1) simp
      have "m = q * (2 * B) + r" by (rule m)
      also have "\<dots> \<le> 9007199254740990 * (2 * B) + r" using le by (rule add_le_mono1)
      also have "\<dots> < 9007199254740990 * (2 * B) + 2 * B" using r by simp
      also have "\<dots> = 18014398509481982 * B" by simp
      finally show ?thesis by simp
    qed
    ultimately show ?thesis by simp
  qed
  show ?thesis using main by (simp only: red)
qed

lemma nearest_float_overflow_iff:
  "2 ^ 1024 \<le> nearest_float m \<longleftrightarrow> 2 ^ 1024 - 2 ^ 970 \<le> m"
proof -
  consider "bit_length m \<le> 1023" | "bit_length m = 1024" | "1025 \<le> bit_length m"
    by linarith
  then show ?thesis
  proof cases
    case 1
    have "nearest_float m \<le> 2 ^ (53 + (bit_length m - 53))" by (rule nearest_float_le)
    also have "\<dots> \<le> (2::nat) ^ 1023" using 1 by (intro power_increasing) simp_all
    also have "\<dots> < 2 ^ 1024" by simp
    finally have a: "\<not> 2 ^ 1024 \<le> nearest_float m" by simp
    have "m < 2 ^ bit_length m" by (rule bit_length_upper)
    also have "\<dots> \<le> (2::nat) ^ 1023" using 1 by (intro power_increasing) simp_all
    also have "\<dots> \<le> 2 ^ 1024 - 2 ^ 970" by simp
    finally have "\<not> 2 ^ 1024 - 2 ^ 970 \<le> m" by simp
    with a show ?thesis by simp
  next
    case 2
    then show ?thesis by (rule nearest_float_top)
  next
    case 3
    then have "(2::nat) ^ 1024 \<le> 2 ^ (bit_length m - 1)" by (intro power_increasing) simp_all
    also have "\<dots> \<le> nearest_float m" using 3 by (intro nearest_float_ge) simp
    finally have a: "2 ^ 1024 \<le> nearest_float m" .
    have "0 < m" using 3 by (cases m) simp_all
    then have "2 ^ (bit_length m - 1) \<le> m" by (rule bit_length_lower)
    with \<open>(2::nat) ^ 1024 \<le> 2 ^ (bit_length m - 1)\<close> have "2 ^ 1024 \<le> m" by simp
    then have "2 ^ 1024 - 2 ^ 970 \<le> m" by simp
    with a show ?thesis by simp
  qed
qed

lemma nearest_float_0 [simp]: "nearest_float 0 = 0"
  by (simp add: nearest_float_def)

lemma float64_of_int_nonneg:
  assumes "0 \<le> d"
  shows "float64_of_int d =
    (if 2 ^ 1024 - 2 ^ 970 \<le> d then Inl OverflowError else Inr (int (nearest_float (nat d))))"
proof -
  have a: "nat \<bar>d\<bar> = nat d" using assms by simp
  have b: "(2 ^ 1024 - 2 ^ 970 \<le> nat d) = (2 ^ 1024 - 2 ^ 970 \<le> d)"
  proof -
    have "int (2 ^ 1024 - 2 ^ 970) = 2 ^ 1024 - 2 ^ 970" by simp
    then show ?thesis using assms by (metis nat_int nat_le_eq_zle of_nat_0_le_iff zle_int int_nat_eq)
  qed
  have c: "sgn d * int (nearest_float (nat d)) = int (nearest_float (nat d))"
    using assms by (cases "d = 0") simp_all
  show ?thesis
    by (simp only: float64_of_int_def Let_def a nearest_float_overflow_iff b c)
qed

lemma collect_Inl_mem: "collect rs = Inl e \<Longrightarrow> Inl e \<in> set rs"
  by (induction rs) (auto split: sum.splits)

lemma collect_fails: "Inl e \<in> set rs \<Longrightarrow> \<exists>e'. collect rs = Inl e'"
  by (induction rs) (auto split: sum.splits)

lemma collect_map_Inr: "collect (map (\<lambda>x. Inr (f x)) xs) = Inr (map f xs)"
  by (induction xs) simp_all

lemma collect_map_cong_Inr:
  assumes "\<And>x. x \<in> set xs \<Longrightarrow> f x = Inr (g x)"
  shows "collect (map f xs) = Inr (map g xs)"
proof -
  have "map f xs = map (\<lambda>x. Inr (g x)) xs" using assms by (rule map_cong [OF refl])
  then show ?thesis by (simp only: collect_map_Inr)
qed

lemma set_list_sort: "set (list_sort pset) = set pset"
  by (simp add: list_sort_def)

lemma in_float_range_cell:
  assumes "in_float_range pset" "i < length pset" "j < length pset"
  shows "cell_value pset i j < 2 ^ 1024 - 2 ^ 970"
proof -
  have "list_sort pset ! i \<in> set pset" "list_sort pset ! j \<in> set pset"
    using assms(2,3) by (metis length_list_sort nth_mem set_list_sort)+
  with assms(1) show ?thesis
    unfolding in_float_range_def cell_value_def list_all_iff by blast
qed

lemma out_of_float_range_cell:
  assumes "\<not> in_float_range pset"
  shows "\<exists>i j. i < length pset \<and> j < length pset \<and> 2 ^ 1024 - 2 ^ 970 \<le> cell_value pset i j"
proof -
  from assms obtain x y where xy: "x \<in> set pset" "y \<in> set pset"
    "\<not> \<bar>pval x - pval y\<bar> < 2 ^ 1024 - 2 ^ 970"
    unfolding in_float_range_def list_all_iff by blast
  from xy(1,2) obtain i j where "i < length pset" "list_sort pset ! i = x"
    "j < length pset" "list_sort pset ! j = y"
    by (metis in_set_conv_nth length_list_sort set_list_sort)
  with xy(3) show ?thesis unfolding cell_value_def by force
qed

lemma p_ic_matrix_rows:
  "p_ic_matrix pset = collect (map (\<lambda>i.
      collect (map (\<lambda>j. float64_of_int (cell_value pset i j)) [0..<length pset]))
    [0..<length pset])"
  by (simp add: p_ic_matrix_def cell_value_def Let_def)

lemma p_ic_matrix_in_range:
  assumes "in_float_range pset"
  shows "p_ic_matrix pset = Inr (map (\<lambda>i.
      map (\<lambda>j. int (nearest_float (nat (cell_value pset i j)))) [0..<length pset])
    [0..<length pset])"
proof -
  have cell: "float64_of_int (cell_value pset i j)
      = Inr (int (nearest_float (nat (cell_value pset i j))))"
    if "i < length pset" "j < length pset" for i j
  proof -
    have "0 \<le> cell_value pset i j" by (simp add: cell_value_def)
    moreover have "\<not> 2 ^ 1024 - 2 ^ 970 \<le> cell_value pset i j"
      using in_float_range_cell [OF assms that] by simp
    ultimately show ?thesis by (simp only: float64_of_int_nonneg if_False)
  qed
  have row: "collect (map (\<lambda>j. float64_of_int (cell_value pset i j)) [0..<length pset])
      = Inr (map (\<lambda>j. int (nearest_float (nat (cell_value pset i j)))) [0..<length pset])"
    if "i < length pset" for i
    by (rule collect_map_cong_Inr) (simp add: cell that)
  show ?thesis
    unfolding p_ic_matrix_rows by (rule collect_map_cong_Inr) (simp add: row)
qed

lemma p_ic_matrix_out_of_range:
  assumes "\<not> in_float_range pset"
  shows "p_ic_matrix pset = Inl OverflowError"
proof -
  let ?row = "\<lambda>i. collect (map (\<lambda>j. float64_of_int (cell_value pset i j)) [0..<length pset])"
  have only: "e = OverflowError" if "float64_of_int d = Inl e" for d e
    using that by (simp add: float64_of_int_def Let_def split: if_splits)
  from out_of_float_range_cell [OF assms] obtain i j where ij: "i < length pset"
    "j < length pset" "2 ^ 1024 - 2 ^ 970 \<le> cell_value pset i j" by blast
  have "0 \<le> cell_value pset i j" by (simp add: cell_value_def)
  then have "float64_of_int (cell_value pset i j) = Inl OverflowError"
    using ij(3) by (simp only: float64_of_int_nonneg if_True)
  then have "Inl OverflowError \<in> set (map (\<lambda>j. float64_of_int (cell_value pset i j)) [0..<length pset])"
    using ij(2) by force
  then obtain e where e: "?row i = Inl e" using collect_fails by blast
  then have "Inl e \<in> set (map ?row [0..<length pset])" using ij(1) by force
  then obtain e' where e': "collect (map ?row [0..<length pset]) = Inl e'"
    using collect_fails by blast
  then have "Inl e' \<in> set (map ?row [0..<length pset])" by (rule collect_Inl_mem)
  then obtain i' where "?row i' = Inl e'" by auto
  then have "Inl e' \<in> set (map (\<lambda>j. float64_of_int (cell_value pset i' j)) [0..<length pset])"
    by (rule collect_Inl_mem)
  then obtain j' where "float64_of_int (cell_value pset i' j') = Inl e'" by auto
  then have "e' = OverflowError" by (rule only)
  with e' show ?thesis by (simp only: p_ic_matrix_rows)
qed

lemma in_float_range_iff:
  "in_float_range pset \<longleftrightarrow>
     (\<forall>x \<in> set pset. \<forall>y \<in> set pset. \<bar>pval x - pval y\<bar> < 2 ^ 1024 - 2 ^ 970)"
  by (simp only: in_float_range_def list_all_iff)

lemma p_ic_matrix_cells:
  assumes mx: "p_ic_matrix pset = Inr mx" and i: "i < length pset" and j: "j < length pset"
  shows "length mx = length pset" "length (mx ! i) = length pset"
    "mx ! i ! j = int (nearest_float (nat (cell_value pset i j)))"
    "float64_of_int (cell_value pset i j) = Inr (mx ! i ! j)"
proof -
  have r: "in_float_range pset"
    using mx p_ic_matrix_out_of_range [of pset] by (cases "in_float_range pset") simp_all
  have eq: "mx = map (\<lambda>i. map (\<lambda>j. int (nearest_float (nat (cell_value pset i j))))
      [0..<length pset]) [0..<length pset]"
    using mx p_ic_matrix_in_range [OF r] by simp
  show "length mx = length pset" by (simp add: eq)
  show "length (mx ! i) = length pset" using i by (simp add: eq)
  show c: "mx ! i ! j = int (nearest_float (nat (cell_value pset i j)))"
    using i j by (simp add: eq)
  have "0 \<le> cell_value pset i j" by (simp add: cell_value_def)
  moreover have "\<not> 2 ^ 1024 - 2 ^ 970 \<le> cell_value pset i j"
    using in_float_range_cell [OF r i j] by simp
  ultimately show "float64_of_int (cell_value pset i j) = Inr (mx ! i ! j)"
    by (simp only: float64_of_int_nonneg if_False c)
qed

lemma cell_value_sym: "cell_value pset i j = cell_value pset j i"
  by (simp add: cell_value_def abs_minus_commute)

lemma cell_value_diag: "cell_value pset i i = 0"
  by (simp add: cell_value_def)

text \<open>
  C1, as amended. For a non-empty pset, \<^verbatim>\<open>p_ic_matrix\<close> returns a matrix exactly when every
  difference of two values is below \<open>2 ^ 1024 - 2 ^ 970\<close>, and raises \<^verbatim>\<open>OverflowError\<close>
  otherwise. The matrix returned is square over the elements sorted ascending by value (a
  rearrangement of the pset's elements); the cell at row \<open>i\<close>, column \<open>j\<close> holds the float
  nearest to the absolute difference of the values of elements \<open>i\<close> and \<open>j\<close>, which is that
  difference itself whenever the difference is at most \<open>2 ^ 53\<close>; the cell equals the cell
  at row \<open>j\<close>, column \<open>i\<close>, the diagonal is zero and no entry is negative.
\<close>

theorem p_ic_matrix_float_cells:
  assumes "pset \<noteq> []"
  shows "(in_float_range pset \<longleftrightarrow>
        (\<forall>x \<in> set pset. \<forall>y \<in> set pset. \<bar>pval x - pval y\<bar> < 2 ^ 1024 - 2 ^ 970))
    \<and> ((\<exists>mx. p_ic_matrix pset = Inr mx) \<longleftrightarrow> in_float_range pset)
    \<and> (\<not> in_float_range pset \<longrightarrow> p_ic_matrix pset = Inl OverflowError)
    \<and> sorted (map pval (list_sort pset)) \<and> mset (list_sort pset) = mset pset
    \<and> (\<forall>mx i j. p_ic_matrix pset = Inr mx \<and> i < length pset \<and> j < length pset \<longrightarrow>
          length mx = length pset \<and> length (mx ! i) = length pset
          \<and> cell_value pset i j = \<bar>pval (list_sort pset ! i) - pval (list_sort pset ! j)\<bar>
          \<and> float64_of_int (cell_value pset i j) = Inr (mx ! i ! j)
          \<and> mx ! i ! j = int (nearest_float (nat (cell_value pset i j)))
          \<and> (cell_value pset i j \<le> 2 ^ 53 \<longrightarrow> mx ! i ! j = cell_value pset i j)
          \<and> mx ! i ! j = mx ! j ! i \<and> mx ! i ! i = 0 \<and> 0 \<le> mx ! i ! j)"
proof -
  have ret: "(\<exists>mx. p_ic_matrix pset = Inr mx) \<longleftrightarrow> in_float_range pset"
    using p_ic_matrix_in_range [of pset] p_ic_matrix_out_of_range [of pset]
    by (cases "in_float_range pset") simp_all
  have cells: "length mx = length pset \<and> length (mx ! i) = length pset
      \<and> cell_value pset i j = \<bar>pval (list_sort pset ! i) - pval (list_sort pset ! j)\<bar>
      \<and> float64_of_int (cell_value pset i j) = Inr (mx ! i ! j)
      \<and> mx ! i ! j = int (nearest_float (nat (cell_value pset i j)))
      \<and> (cell_value pset i j \<le> 2 ^ 53 \<longrightarrow> mx ! i ! j = cell_value pset i j)
      \<and> mx ! i ! j = mx ! j ! i \<and> mx ! i ! i = 0 \<and> 0 \<le> mx ! i ! j"
    if mx: "p_ic_matrix pset = Inr mx" and i: "i < length pset" and j: "j < length pset"
    for mx i j
  proof -
    note ij = p_ic_matrix_cells [OF mx i j]
    note ji = p_ic_matrix_cells [OF mx j i]
    note ii = p_ic_matrix_cells [OF mx i i]
    have nn: "0 \<le> cell_value pset i j" by (simp add: cell_value_def)
    have exact: "mx ! i ! j = cell_value pset i j" if "cell_value pset i j \<le> 2 ^ 53"
    proof -
      from that nn have "nat (cell_value pset i j) \<le> 2 ^ 53" by simp
      then have "nearest_float (nat (cell_value pset i j)) = nat (cell_value pset i j)"
        by (rule nearest_float_exact)
      with nn show ?thesis by (simp add: ij(3))
    qed
    have sym: "mx ! i ! j = mx ! j ! i"
      by (simp only: ij(3) ji(3) cell_value_sym [of pset j i])
    have diag: "mx ! i ! i = 0" by (simp add: ii(3) cell_value_diag)
    have pos: "0 \<le> mx ! i ! j" by (simp add: ij(3))
    from ij exact sym diag pos show ?thesis by (simp add: cell_value_def)
  qed
  show ?thesis
    using ret cells p_ic_matrix_out_of_range [of pset] in_float_range_iff [of pset]
      sorted_list_sort [of pset] mset_list_sort [of pset]
    by blast
qed

theorem p_ic_matrix_float_cells_witness:
  "[Pitch PitchClass12 4, Pitch PitchClass12 0, Pitch PitchClass12 7] \<noteq> [] \<and> in_float_range [Pitch PitchClass12 4, Pitch PitchClass12 0, Pitch PitchClass12 7]
   \<and> p_ic_matrix [Pitch PitchClass12 4, Pitch PitchClass12 0, Pitch PitchClass12 7] = Inr [[0, 4, 7], [4, 0, 3], [7, 3, 0]]
   \<and> float64_of_int (cell_value [Pitch PitchClass12 4, Pitch PitchClass12 0, Pitch PitchClass12 7] 0 2) = Inr 7
   \<and> cell_value [Pitch PitchClass12 4, Pitch PitchClass12 0, Pitch PitchClass12 7] 0 2 = 7"
proof -
  have a1: "[Pitch PitchClass12 4, Pitch PitchClass12 0, Pitch PitchClass12 7] \<noteq> []" by simp
  have r: "in_float_range [Pitch PitchClass12 4, Pitch PitchClass12 0, Pitch PitchClass12 7]" by (simp add: in_float_range_def)
  have small: "nearest_float 0 = 0" "nearest_float 3 = 3" "nearest_float 4 = 4"
    "nearest_float 7 = 7"
    by (simp_all add: nearest_float_small)
  have m: "p_ic_matrix [Pitch PitchClass12 4, Pitch PitchClass12 0, Pitch PitchClass12 7] = Inr [[0, 4, 7], [4, 0, 3], [7, 3, 0]]"
    by (simp add: p_ic_matrix_in_range [OF r] cell_value_def list_sort_def upt_rec small)
  have i: "(0::nat) < length [Pitch PitchClass12 4, Pitch PitchClass12 0, Pitch PitchClass12 7]" and j: "(2::nat) < length [Pitch PitchClass12 4, Pitch PitchClass12 0, Pitch PitchClass12 7]" by simp_all
  from p_ic_matrix_float_cells [OF a1] m i j
  have "float64_of_int (cell_value [Pitch PitchClass12 4, Pitch PitchClass12 0, Pitch PitchClass12 7] 0 2) = Inr ([[0, 4, 7], [4, 0, 3], [7, 3, 0]] ! 0 ! 2)"
    by blast
  moreover have "cell_value [Pitch PitchClass12 4, Pitch PitchClass12 0, Pitch PitchClass12 7] 0 2 = 7" by (simp add: cell_value_def list_sort_def)
  ultimately have "float64_of_int (cell_value [Pitch PitchClass12 4, Pitch PitchClass12 0, Pitch PitchClass12 7] 0 2) = Inr 7 \<and> cell_value [Pitch PitchClass12 4, Pitch PitchClass12 0, Pitch PitchClass12 7] 0 2 = 7"
    by simp
  with a1 r m show ?thesis by blast
qed

text \<open>
  C1, as stated, fails for large values. For the pset {0, 2^53 + 1} the difference of the two
  values is \<open>2 ^ 53 + 1 = 9007199254740993\<close>, but the cell holds \<open>2 ^ 53\<close>, the nearest
  float. For the pset {0, 10^400} no matrix is returned: the assignment to the cell raises.
\<close>

theorem p_ic_matrix_cell_counterexample:
  "p_ic_matrix [Pitch Pitch12 0, Pitch Pitch12 9007199254740993] = Inr [[0, 9007199254740992], [9007199254740992, 0]]
   \<and> \<bar>pval (list_sort [Pitch Pitch12 0, Pitch Pitch12 9007199254740993] ! 0) - pval (list_sort [Pitch Pitch12 0, Pitch Pitch12 9007199254740993] ! 1)\<bar> = 9007199254740993
   \<and> (\<exists>mx. p_ic_matrix [Pitch Pitch12 0, Pitch Pitch12 9007199254740993] = Inr mx
        \<and> mx ! 0 ! 1 \<noteq> \<bar>pval (list_sort [Pitch Pitch12 0, Pitch Pitch12 9007199254740993] ! 0) - pval (list_sort [Pitch Pitch12 0, Pitch Pitch12 9007199254740993] ! 1)\<bar>)
   \<and> p_ic_matrix [Pitch Pitch12 0, Pitch Pitch12 (10 ^ 400)] = Inl OverflowError"
proof -
  have r: "in_float_range [Pitch Pitch12 0, Pitch Pitch12 9007199254740993]" by (simp add: in_float_range_def)
  have m: "p_ic_matrix [Pitch Pitch12 0, Pitch Pitch12 9007199254740993] = Inr [[0, 9007199254740992], [9007199254740992, 0]]"
    by (simp add: p_ic_matrix_in_range [OF r] cell_value_def list_sort_def upt_rec
        nearest_float_2_53_1)
  have d: "\<bar>pval (list_sort [Pitch Pitch12 0, Pitch Pitch12 9007199254740993] ! 0) - pval (list_sort [Pitch Pitch12 0, Pitch Pitch12 9007199254740993] ! 1)\<bar> = 9007199254740993"
    by (simp add: list_sort_def)
  have "\<not> in_float_range [Pitch Pitch12 0, Pitch Pitch12 (10 ^ 400)]" by (simp add: in_float_range_def)
  then have o: "p_ic_matrix [Pitch Pitch12 0, Pitch Pitch12 (10 ^ 400)] = Inl OverflowError" by (rule p_ic_matrix_out_of_range)
  have n: "\<exists>mx. p_ic_matrix [Pitch Pitch12 0, Pitch Pitch12 9007199254740993] = Inr mx
      \<and> mx ! 0 ! 1 \<noteq> \<bar>pval (list_sort [Pitch Pitch12 0, Pitch Pitch12 9007199254740993] ! 0) - pval (list_sort [Pitch Pitch12 0, Pitch Pitch12 9007199254740993] ! 1)\<bar>"
  proof (intro exI conjI)
    show "p_ic_matrix [Pitch Pitch12 0, Pitch Pitch12 9007199254740993] = Inr [[0, 9007199254740992], [9007199254740992, 0]]"
      by (rule m)
    show "[[0, 9007199254740992], [9007199254740992, 0]] ! 0 ! 1
        \<noteq> \<bar>pval (list_sort [Pitch Pitch12 0, Pitch Pitch12 9007199254740993] ! 0) - pval (list_sort [Pitch Pitch12 0, Pitch Pitch12 9007199254740993] ! 1)\<bar>"
      by (simp add: list_sort_def)
  qed
  from m d n o show ?thesis by blast
qed

section \<open>Properties of the interval-class roster\<close>

lemma roster_count_sum:
  "sum_list (map snd (roster_count k r)) = sum_list (map snd r) + 1"
  unfolding roster_count_def
  by (induction r) (auto split: option.splits)

lemma roster_count_keys:
  "fst ` set (roster_count k r) = insert k (fst ` set r)"
  unfolding roster_count_def
  by (auto simp: dom_update split: option.splits)

lemma roster_count_distinct:
  "distinct (map fst r) \<Longrightarrow> distinct (map fst (roster_count k r))"
  unfolding roster_count_def
  by (auto simp: distinct_update split: option.splits)

lemma fold_roster_count_sum:
  "sum_list (map snd (fold roster_count ks r)) = sum_list (map snd r) + int (length ks)"
  by (induction ks arbitrary: r) (simp_all add: roster_count_sum)

lemma fold_roster_count_keys:
  "fst ` set (fold roster_count ks r) = set ks \<union> fst ` set r"
  by (induction ks arbitrary: r) (auto simp: roster_count_keys)

lemma fold_roster_count_distinct:
  "distinct (map fst r) \<Longrightarrow> distinct (map fst (fold roster_count ks r))"
  by (induction ks arbitrary: r) (simp_all add: roster_count_distinct)

lemma fold_fold_concat:
  "fold (\<lambda>i. fold (\<lambda>j. f (g i j)) (js i)) is r
     = fold f (concat (map (\<lambda>i. map (g i) (js i)) is)) r"
  by (induction "is" arbitrary: r) (simp_all add: fold_map comp_def)

lemma p_ic_roster_fold:
  "p_ic_roster pset = fold roster_count (pair_intervals (list_sort pset)) []"
  unfolding p_ic_roster_def pair_intervals_def Let_def
  by (rule fold_fold_concat)

lemma sum_upt_int: "2 * int (sum_list [0..<n]) = int n * (int n - 1)"
  by (induction n) (simp_all add: algebra_simps)

lemma length_pair_intervals_nat:
  "length (pair_intervals pseg) = sum_list [0..<length pseg]"
proof -
  have "length (pair_intervals pseg) = sum_list (rev (map (\<lambda>i. i) [0..<length pseg]))"
    unfolding pair_intervals_def by (simp add: length_concat comp_def rev_map)
  then show ?thesis by (simp add: sum_list_rev)
qed

lemma length_pair_intervals:
  "int (length (pair_intervals pseg)) = int (length pseg) * (int (length pseg) - 1) div 2"
  using sum_upt_int [of "length pseg"] by (simp add: length_pair_intervals_nat)

lemma p_ic_roster_sum:
  "sum_list (map snd (p_ic_roster pset)) = int (length pset) * (int (length pset) - 1) div 2"
  by (simp add: p_ic_roster_fold fold_roster_count_sum length_pair_intervals length_list_sort)

lemma p_ic_roster_distinct: "distinct (map fst (p_ic_roster pset))"
  by (simp add: p_ic_roster_fold fold_roster_count_distinct)

lemma p_ic_roster_keys:
  "fst ` set (p_ic_roster pset) = set (pair_intervals (list_sort pset))"
  by (simp add: p_ic_roster_fold fold_roster_count_keys)

lemma pair_intervals_mem:
  "k \<in> set (pair_intervals pseg) \<longleftrightarrow>
     (\<exists>i j. j < i \<and> i < length pseg \<and> k = \<bar>pval (pseg ! i) - pval (pseg ! j)\<bar>)"
proof
  assume "k \<in> set (pair_intervals pseg)"
  then obtain i j where "i < length pseg" "j < i" "k = \<bar>pval (pseg ! i) - pval (pseg ! j)\<bar>"
    unfolding pair_intervals_def by auto
  then show "\<exists>i j. j < i \<and> i < length pseg \<and> k = \<bar>pval (pseg ! i) - pval (pseg ! j)\<bar>"
    by blast
next
  assume "\<exists>i j. j < i \<and> i < length pseg \<and> k = \<bar>pval (pseg ! i) - pval (pseg ! j)\<bar>"
  then obtain i j where ij: "j < i" "i < length pseg" "k = \<bar>pval (pseg ! i) - pval (pseg ! j)\<bar>"
    by blast
  then have "k \<in> (\<lambda>j. \<bar>pval (pseg ! i) - pval (pseg ! j)\<bar>) ` {0..<i}" by auto
  with ij(2) show "k \<in> set (pair_intervals pseg)"
    unfolding pair_intervals_def by auto
qed

lemma list_sort_nth_neq:
  assumes "distinct pset" "i < length pset" "j < length pset" "i \<noteq> j"
  shows "list_sort pset ! i \<noteq> list_sort pset ! j"
  using assms by (simp add: list_sort_def nth_eq_iff_index_eq)

lemma list_sort_nth_mem: "i < length pset \<Longrightarrow> list_sort pset ! i \<in> set pset"
  by (metis length_list_sort list_sort_def nth_mem set_sort)

text \<open>
  C2. For a non-empty pset of \<open>n\<close> elements, the counts of \<^verbatim>\<open>p_ic_roster\<close> sum to
  \<open>n * (n - 1) / 2\<close>, the roster holds every key once, and every key is the absolute
  difference of the values of two distinct elements of the pset.
\<close>

theorem p_ic_roster_sum_and_keys:
  assumes "pset \<noteq> []" and "distinct pset"
  shows "sum_list (map snd (p_ic_roster pset))
        = int (length pset) * (int (length pset) - 1) div 2
    \<and> distinct (map fst (p_ic_roster pset))
    \<and> (\<forall>k \<in> fst ` set (p_ic_roster pset).
          \<exists>x \<in> set pset. \<exists>y \<in> set pset. x \<noteq> y \<and> k = \<bar>pval x - pval y\<bar>)"
proof -
  have keys: "\<exists>x \<in> set pset. \<exists>y \<in> set pset. x \<noteq> y \<and> k = \<bar>pval x - pval y\<bar>"
    if "k \<in> fst ` set (p_ic_roster pset)" for k
  proof -
    from that have "k \<in> set (pair_intervals (list_sort pset))"
      by (simp add: p_ic_roster_keys)
    then obtain i j where ij: "j < i" "i < length pset"
      "k = \<bar>pval (list_sort pset ! i) - pval (list_sort pset ! j)\<bar>"
      by (auto simp: pair_intervals_mem length_list_sort)
    then have "j < length pset" "i \<noteq> j" by simp_all
    with ij assms(2) have "list_sort pset ! i \<noteq> list_sort pset ! j"
      "list_sort pset ! i \<in> set pset" "list_sort pset ! j \<in> set pset"
      by (simp_all add: list_sort_nth_neq list_sort_nth_mem)
    with ij(3) show ?thesis by blast
  qed
  show ?thesis
    using keys by (simp add: p_ic_roster_sum p_ic_roster_distinct)
qed

theorem p_ic_roster_sum_and_keys_witness:
  "[Pitch PitchClass12 0, Pitch PitchClass12 1, Pitch PitchClass12 4] \<noteq> [] \<and> distinct [Pitch PitchClass12 0, Pitch PitchClass12 1, Pitch PitchClass12 4]
   \<and> p_ic_roster [Pitch PitchClass12 0, Pitch PitchClass12 1, Pitch PitchClass12 4] = [(3, 1), (4, 1), (1, 1)]
   \<and> sum_list (map snd (p_ic_roster [Pitch PitchClass12 0, Pitch PitchClass12 1, Pitch PitchClass12 4])) = 3
   \<and> distinct (map fst (p_ic_roster [Pitch PitchClass12 0, Pitch PitchClass12 1, Pitch PitchClass12 4]))"
proof -
  have a1: "[Pitch PitchClass12 0, Pitch PitchClass12 1, Pitch PitchClass12 4] \<noteq> []" by simp
  have a2: "distinct [Pitch PitchClass12 0, Pitch PitchClass12 1, Pitch PitchClass12 4]" by simp
  have r: "p_ic_roster [Pitch PitchClass12 0, Pitch PitchClass12 1, Pitch PitchClass12 4] = [(3, 1), (4, 1), (1, 1)]"
    by (simp add: p_ic_roster_def list_sort_def roster_count_def upt_rec)
  from p_ic_roster_sum_and_keys [OF a1 a2]
  have "sum_list (map snd (p_ic_roster [Pitch PitchClass12 0, Pitch PitchClass12 1, Pitch PitchClass12 4])) = 3 \<and> distinct (map fst (p_ic_roster [Pitch PitchClass12 0, Pitch PitchClass12 1, Pitch PitchClass12 4]))"
    by simp
  with a1 a2 r show ?thesis by blast
qed

section \<open>Properties of the similarity measure\<close>

lemma ic_shared_fold:
  "fold (\<lambda>(ic, c1) ic_shared.
            case map_of r2 ic of
              None \<Rightarrow> ic_shared
            | Some c2 \<Rightarrow> if c1 < c2 then ic_shared + c1 else ic_shared + c2) r1 a
   = a + sum_list (map (\<lambda>x. shared (fst x) (snd x) r2) r1)"
  by (induction r1 arbitrary: a) (auto simp: shared_def split: option.splits)

lemma ic_shared_loop_sum:
  "ic_shared_loop r1 r2 = sum_list (map (\<lambda>x. shared (fst x) (snd x) r2) r1)"
  unfolding ic_shared_loop_def by (simp add: ic_shared_fold)

lemma shared_absent:
  "k \<notin> fst ` set r2 \<Longrightarrow> sum_list (map (\<lambda>y. if fst y = k then min c1 (snd y) else 0) r2) = 0"
  by (induction r2) auto

lemma shared_sum:
  "distinct (map fst r2) \<Longrightarrow>
    shared k c1 r2 = sum_list (map (\<lambda>y. if fst y = k then min c1 (snd y) else 0) r2)"
proof (induction r2)
  case Nil
  then show ?case by (simp add: shared_def)
next
  case (Cons a r2)
  obtain k' c' where a: "a = (k', c')" by (cases a)
  show ?case
  proof (cases "k' = k")
    case True
    with Cons.prems a have "k \<notin> fst ` set r2" by auto
    then show ?thesis using True a by (simp add: shared_def shared_absent)
  next
    case False
    then show ?thesis using Cons a by (simp add: shared_def)
  qed
qed

lemma sum_list_swap:
  fixes f :: "'a \<Rightarrow> 'b \<Rightarrow> int"
  shows "sum_list (map (\<lambda>x. sum_list (map (f x) ys)) xs)
    = sum_list (map (\<lambda>y. sum_list (map (\<lambda>x. f x y) xs)) ys)"
  by (induction xs) (simp_all add: sum_list_addf)

lemma ic_shared_loop_commute:
  assumes "distinct (map fst r1)" and "distinct (map fst r2)"
  shows "ic_shared_loop r1 r2 = ic_shared_loop r2 r1"
proof -
  have "ic_shared_loop r1 r2
    = sum_list (map (\<lambda>x. sum_list (map (\<lambda>y. if fst y = fst x then min (snd x) (snd y) else 0) r2)) r1)"
    by (simp add: ic_shared_loop_sum shared_sum [OF assms(2)])
  also have "\<dots> = sum_list (map (\<lambda>y. sum_list (map (\<lambda>x. if fst y = fst x then min (snd x) (snd y) else 0) r1)) r2)"
    by (rule sum_list_swap)
  also have "\<dots> = sum_list (map (\<lambda>y. sum_list (map (\<lambda>x. if fst x = fst y then min (snd y) (snd x) else 0) r1)) r2)"
  proof -
    have "\<And>x y :: int \<times> int. (if fst y = fst x then min (snd x) (snd y) else 0)
        = (if fst x = fst y then min (snd y) (snd x) else 0)"
      by (auto simp: min.commute)
    then show ?thesis by (simp only:)
  qed
  also have "\<dots> = ic_shared_loop r2 r1"
    by (simp add: ic_shared_loop_sum shared_sum [OF assms(1)])
  finally show ?thesis .
qed

lemma shared_self:
  "distinct (map fst r) \<Longrightarrow> (k, c) \<in> set r \<Longrightarrow> shared k c r = c"
  by (simp add: shared_def)

lemma ic_shared_loop_self:
  assumes "distinct (map fst r)"
  shows "ic_shared_loop r r = sum_list (map snd r)"
proof -
  have "map (\<lambda>x. shared (fst x) (snd x) r) r = map snd r"
    using assms by (auto simp: shared_self)
  then show ?thesis by (simp only: ic_shared_loop_sum)
qed

lemma cint_card:
  "distinct A \<Longrightarrow> length (filter (\<lambda>x. x \<in> set B) A) = card (set A \<inter> set B)"
proof -
  assume d: "distinct A"
  have "set (filter (\<lambda>x. x \<in> set B) A) = set A \<inter> set B" by auto
  moreover have "distinct (filter (\<lambda>x. x \<in> set B) A)" using d by simp
  ultimately show ?thesis using distinct_card by metis
qed

text \<open>
  C9. The similarity of a pset of \<open>n\<close> elements with itself, with no precomputed rosters, is
  the pair \<open>(n, n * (n - 1) / 2)\<close>.
\<close>

theorem pm_similarity_self:
  "pm_similarity A A None None
     = (int (length A), int (length A) * (int (length A) - 1) div 2)"
  by (simp add: pm_similarity_def ic_shared_loop_self p_ic_roster_distinct p_ic_roster_sum)

theorem pm_similarity_self_witness:
  "pm_similarity [Pitch PitchClass12 0, Pitch PitchClass12 4, Pitch PitchClass12 7] [Pitch PitchClass12 0, Pitch PitchClass12 4, Pitch PitchClass12 7] None None = (3, 3)"
  using pm_similarity_self [of "[Pitch PitchClass12 0, Pitch PitchClass12 4, Pitch PitchClass12 7]"] by simp

text \<open>
  C10. With no precomputed rosters the similarity is symmetric in its two psets: the first
  component is the size of the intersection of the two sets, the second adds, over the keys
  of the first roster, the smaller of the two counts of a key that both rosters hold.
\<close>

theorem pm_similarity_symmetric:
  assumes "distinct A" and "distinct B"
  shows "pm_similarity A B None None = pm_similarity B A None None
    \<and> fst (pm_similarity A B None None) = int (card (set A \<inter> set B))
    \<and> snd (pm_similarity A B None None)
        = sum_list (map (\<lambda>x. shared (fst x) (snd x) (p_ic_roster B)) (p_ic_roster A))"
  using assms
  by (simp add: pm_similarity_def cint_card Int_commute ic_shared_loop_sum [symmetric]
      ic_shared_loop_commute [OF p_ic_roster_distinct p_ic_roster_distinct])

theorem pm_similarity_symmetric_witness:
  "distinct [Pitch PitchClass12 0, Pitch PitchClass12 4, Pitch PitchClass12 7] \<and> distinct [Pitch PitchClass12 0, Pitch PitchClass12 3, Pitch PitchClass12 7]
   \<and> pm_similarity [Pitch PitchClass12 0, Pitch PitchClass12 4, Pitch PitchClass12 7] [Pitch PitchClass12 0, Pitch PitchClass12 3, Pitch PitchClass12 7] None None = (2, 3)
   \<and> pm_similarity [Pitch PitchClass12 0, Pitch PitchClass12 3, Pitch PitchClass12 7] [Pitch PitchClass12 0, Pitch PitchClass12 4, Pitch PitchClass12 7] None None = (2, 3)"
proof -
  have a1: "distinct [Pitch PitchClass12 0, Pitch PitchClass12 4, Pitch PitchClass12 7]" by simp
  have a2: "distinct [Pitch PitchClass12 0, Pitch PitchClass12 3, Pitch PitchClass12 7]" by simp
  have v: "pm_similarity [Pitch PitchClass12 0, Pitch PitchClass12 4, Pitch PitchClass12 7] [Pitch PitchClass12 0, Pitch PitchClass12 3, Pitch PitchClass12 7] None None = (2, 3)"
    by (simp add: pm_similarity_def ic_shared_loop_def p_ic_roster_def list_sort_def
        roster_count_def upt_rec)
  from pm_similarity_symmetric [OF a1 a2] v
  have "pm_similarity [Pitch PitchClass12 0, Pitch PitchClass12 3, Pitch PitchClass12 7] [Pitch PitchClass12 0, Pitch PitchClass12 4, Pitch PitchClass12 7] None None = (2, 3)" by simp
  with a1 a2 v show ?thesis by blast
qed

section \<open>The type inference of the operators\<close>

text \<open>
  \<^verbatim>\<open>transpose\<close>, \<^verbatim>\<open>invert\<close>, \<^verbatim>\<open>subsets\<close>, \<^verbatim>\<open>pcint_class\<close> and \<^verbatim>\<open>fb_class\<close> all start from
  \<^verbatim>\<open>type(iter(next(pset)))\<close>. \<^verbatim>\<open>next\<close> is applied to the set itself, not to an iterator
  over it, so the expression raises \<^verbatim>\<open>TypeError\<close> for every set, empty or not, and none of
  the five functions reaches its loop. (The reverse nesting, \<^verbatim>\<open>type(next(iter(pset)))\<close>,
  is the type of an element of a non-empty set.)
\<close>

lemma type_iter_next_fails: "type_iter_next pset = Inl TypeError"
  by (simp add: type_iter_next_def)

lemma type_next_iter_nonempty:
  "py_iter (SetObj (x # xs)) = Inr it \<Longrightarrow> py_next it = Inr y \<Longrightarrow> py_type y = TPitch (pcls x)"
  by auto

text \<open>
  The loop shared by \<^verbatim>\<open>transpose\<close> and \<^verbatim>\<open>invert\<close>, for a pitch class \<open>c\<close> in the place of
  the inferred type: it returns, and the set it returns holds the images of the elements.
\<close>

lemma add_each_pitch:
  "add_each (TPitch c) f xs acc = Inr (fold (\<lambda>x. set_add (Pitch c (f (pval x)))) xs acc)"
  by (induction xs arbitrary: acc) simp_all

lemma set_fold_set_add:
  "set (fold (\<lambda>x. set_add (g x)) xs acc) = set acc \<union> g ` set xs"
  by (induction xs arbitrary: acc) (auto simp: set_add_def)

lemma distinct_fold_set_add:
  "distinct acc \<Longrightarrow> distinct (fold (\<lambda>x. set_add (g x)) xs acc)"
  by (induction xs arbitrary: acc) (auto simp: set_add_def)

section \<open>The loops behind the type inference\<close>

text \<open>
  What the loops of the operators compute once a pitch class \<open>c\<close> stands in the place of
  the inferred type: transposing twice is transposing by the sum, inverting twice gives the
  elements back, and the rows of \<^verbatim>\<open>subsets\<close> are \<open>2 ^ n\<close> value sequences, pairwise distinct
  when the values are, with the empty row at index 0 and the full row at the last index.
\<close>

lemma transpose_loop_compose:
  "set (fold (\<lambda>x. set_add (Pitch c (pval x + n)))
          (fold (\<lambda>x. set_add (Pitch c (pval x + m))) xs []) [])
   = set (fold (\<lambda>x. set_add (Pitch c (pval x + (m + n)))) xs [])"
  by (simp add: set_fold_set_add image_image add.assoc)

lemma invert_loop_involution:
  assumes "\<And>x. x \<in> set xs \<Longrightarrow> pcls x = c"
  shows "set (fold (\<lambda>x. set_add (Pitch c (pval x * (- 1))))
          (fold (\<lambda>x. set_add (Pitch c (pval x * (- 1)))) xs []) [])
   = set xs"
proof -
  have "(\<lambda>x. Pitch c (pval x)) ` set xs = set xs"
  proof -
    have "Pitch c (pval x) = x" if "x \<in> set xs" for x
      using assms [OF that] by (cases x) simp
    then show ?thesis by force
  qed
  then show ?thesis by (simp add: set_fold_set_add image_image)
qed

lemma mask_bit_iff: "mask_bit index i \<longleftrightarrow> bit index i"
  by (simp add: mask_bit_def push_bit_of_1 and_exp_eq_0_iff_not_bit)

lemma subset_row_pitch:
  "subset_row (TPitch c) pseg n index
     = Inr (map (\<lambda>i. Pitch c (pval (pseg ! i))) (filter (mask_bit index) [0..<n]))"
  unfolding subset_row_def by (simp add: collect_map_Inr)

lemma subsets_rows_pitch:
  "collect (map (subset_row (TPitch c) pseg (length pseg)) [0..<2 ^ length pseg])
     = Inr (map (\<lambda>index. map (\<lambda>i. Pitch c (pval (pseg ! i)))
          (filter (mask_bit index) [0..<length pseg])) [0..<2 ^ length pseg])"
proof -
  have "subset_row (TPitch c) pseg (length pseg)
      = (\<lambda>index. Inr (map (\<lambda>i. Pitch c (pval (pseg ! i)))
          (filter (mask_bit index) [0..<length pseg])))"
    by (rule ext) (rule subset_row_pitch)
  then show ?thesis by (simp only: collect_map_Inr)
qed

lemma row_values_0: "row_values pseg 0 = []"
  by (simp add: row_values_def mask_bit_iff)

lemma row_values_full: "row_values pseg (2 ^ length pseg - 1) = map pval pseg"
proof -
  have "(2::nat) ^ length pseg - 1 = mask (length pseg)"
    by (simp only: mask_eq_exp_minus_1)
  then have "\<forall>i \<in> set [0..<length pseg]. mask_bit (2 ^ length pseg - 1) i"
    by (simp only: mask_bit_iff bit_mask_iff) simp
  then have "filter (mask_bit (2 ^ length pseg - 1)) [0..<length pseg] = [0..<length pseg]"
    by (simp only: filter_id_conv)
  moreover have "map (\<lambda>i. pval (pseg ! i)) [0..<length pseg] = map pval pseg"
    by (rule nth_equalityI) simp_all
  ultimately show ?thesis by (simp only: row_values_def)
qed

lemma row_values_inj:
  assumes d: "distinct (map pval pseg)"
    and a: "a < 2 ^ length pseg" and b: "b < 2 ^ length pseg"
    and eq: "row_values pseg a = row_values pseg b"
  shows "a = b"
proof (rule bit_eqI)
  fix i
  let ?n = "length pseg"
  have inj: "inj_on (\<lambda>i. pval (pseg ! i)) {..<?n}"
    using d by (auto simp: inj_on_def distinct_conv_nth)
  have s: "set (row_values pseg k) = (\<lambda>i. pval (pseg ! i)) ` {i. i < ?n \<and> bit k i}" for k
    by (auto simp: row_values_def mask_bit_iff)
  from eq have "(\<lambda>i. pval (pseg ! i)) ` {i. i < ?n \<and> bit a i}
      = (\<lambda>i. pval (pseg ! i)) ` {i. i < ?n \<and> bit b i}"
    by (simp add: s [symmetric])
  then have sets: "{i. i < ?n \<and> bit a i} = {i. i < ?n \<and> bit b i}"
    by (rule inj_on_image_eq_iff [OF inj, THEN iffD1, rotated 2]) auto
  show "bit a i \<longleftrightarrow> bit b i"
  proof (cases "i < ?n")
    case True
    with sets show ?thesis by blast
  next
    case False
    then have "2 ^ ?n \<le> (2::nat) ^ i" by (simp add: power_increasing)
    with a b have "a < 2 ^ i" "b < 2 ^ i" by (simp_all only: less_le_trans)
    then show ?thesis by (simp add: bit_iff_odd)
  qed
qed

lemma row_values_distinct:
  assumes "distinct (map pval pseg)"
  shows "distinct (map (row_values pseg) [0..<2 ^ length pseg])"
  unfolding distinct_map
  by (auto simp: inj_on_def intro: row_values_inj [OF assms])

text \<open>
  C4. The claim is that \<^verbatim>\<open>transpose\<close> and \<^verbatim>\<open>invert\<close> fail exactly on the empty set. The
  code fails on a non-empty set as well: here on a set of two pitch classes.
\<close>

theorem transpose_invert_fail_on_nonempty:
  "transpose_pset [Pitch PitchClass12 0, Pitch PitchClass12 4] 1 = Inl TypeError
   \<and> invert [Pitch PitchClass12 0, Pitch PitchClass12 4] = Inl TypeError
   \<and> transpose_pset [] 1 = Inl TypeError \<and> invert [] = Inl TypeError"
  by (simp add: transpose_pset_def invert_def type_iter_next_def)

text \<open>
  C7. The claim is that transposing by \<open>m\<close> and then by \<open>n\<close> gives the set that transposing
  by \<open>m + n\<close> gives. On the code neither side yields a set: each transposition raises.
\<close>

theorem transpose_twice_fails:
  "(case transpose_pset [Pitch Pitch12 0, Pitch Pitch12 3] 1 of
      Inl e \<Rightarrow> Inl e
    | Inr B \<Rightarrow> transpose_pset B 2) = Inl TypeError
   \<and> transpose_pset [Pitch Pitch12 0, Pitch Pitch12 3] (1 + 2) = Inl TypeError"
  by (simp add: transpose_pset_def type_iter_next_def)

text \<open>
  C8. The claim is that inverting twice gives the pset back. On the code the first
  inversion already raises.
\<close>

theorem invert_twice_fails:
  "(case invert [Pitch Pitch12 0, Pitch Pitch12 3] of
      Inl e \<Rightarrow> Inl e
    | Inr B \<Rightarrow> invert B) = Inl TypeError"
  by (simp add: invert_def type_iter_next_def)

text \<open>
  C3. The claim is that \<^verbatim>\<open>subsets\<close> returns the \<open>2 ^ n\<close> subsets of a pset of \<open>n\<close> elements.
  On the code \<^verbatim>\<open>subsets\<close> raises before it builds a row: here for the pset of the spec's
  scenario, whose 8 subsets it should list.
\<close>

theorem subsets_fails:
  "subsets [Pitch PitchClass12 0, Pitch PitchClass12 1, Pitch PitchClass12 4] = Inl TypeError"
  by (simp add: subsets_def type_iter_next_def)

text \<open>
  C5. The claim is that \<^verbatim>\<open>pcint_class\<close> reduces the adjacent differences modulo 12 for
  12-division pitch classes and modulo 24 for 24-division ones. On the code it raises while
  it looks for the modulus, for either kind of element.
\<close>

theorem pcint_class_fails:
  "pcint_class [Pitch PitchClass12 0, Pitch PitchClass12 4, Pitch PitchClass12 7] = Inl TypeError
   \<and> pcint_class [Pitch PitchClass24 0, Pitch PitchClass24 9, Pitch PitchClass24 14]
       = Inl TypeError"
  by (simp add: pcint_class_def type_iter_next_def)

section \<open>The figured-bass class\<close>

lemma hd_sorted_le: "sorted ys \<Longrightarrow> v \<in> set ys \<Longrightarrow> hd ys \<le> (v::int)"
  by (cases ys) auto

text \<open>
  The loop of \<^verbatim>\<open>fb_class\<close> for a non-empty pset and a modulus \<open>n > 0\<close>: the list holds the
  values \<open>(value - p0) mod n\<close> sorted ascending; the entry that \<^verbatim>\<open>del intlist[0]\<close> removes
  is the smallest of them, it is never negative, and it is 0 exactly when the value of some
  element is congruent to \<open>p0\<close> modulo \<open>n\<close>, as it is when \<open>p0\<close> is the lowest pitch of the
  pset. With modulus 12, the pset {0, 4, 7} and \<open>p0 = 0\<close> the entries left are 4 and 7.
\<close>

lemma fb_loop_removed_entry:
  assumes "pset \<noteq> []" and "0 < n"
  shows "sorted (fb_intlist n pset p0)
    \<and> mset (fb_intlist n pset p0) = mset (map (\<lambda>x. (pval x - p0) mod n) pset)
    \<and> fb_intlist n pset p0 = hd (fb_intlist n pset p0) # del_first (fb_intlist n pset p0)
    \<and> (\<forall>v \<in> set (fb_intlist n pset p0). hd (fb_intlist n pset p0) \<le> v)
    \<and> 0 \<le> hd (fb_intlist n pset p0)
    \<and> (hd (fb_intlist n pset p0) = 0 \<longleftrightarrow> (\<exists>x \<in> set pset. (pval x - p0) mod n = 0))
    \<and> del_first (fb_intlist 12 [Pitch PitchClass12 0, Pitch PitchClass12 4, Pitch PitchClass12 7] 0) = [4, 7]"
proof -
  let ?l = "fb_intlist n pset p0"
  have s: "sorted ?l" by (simp add: fb_intlist_def)
  have m: "mset ?l = mset (map (\<lambda>x. (pval x - p0) mod n) pset)" by (simp add: fb_intlist_def)
  have st: "set ?l = (\<lambda>x. (pval x - p0) mod n) ` set pset" by (simp add: fb_intlist_def)
  have "length ?l = length pset" by (simp add: fb_intlist_def)
  with assms(1) have ne: "?l \<noteq> []" by auto
  then have split: "?l = hd ?l # del_first ?l" by (simp add: del_first_def)
  have le: "\<forall>v \<in> set ?l. hd ?l \<le> v" using s by (blast intro: hd_sorted_le)
  have hdmem: "hd ?l \<in> set ?l" using ne by simp
  then have nonneg: "0 \<le> hd ?l" using assms(2) unfolding st by auto
  have zero: "hd ?l = 0 \<longleftrightarrow> (\<exists>x \<in> set pset. (pval x - p0) mod n = 0)"
  proof
    assume "hd ?l = 0"
    with hdmem show "\<exists>x \<in> set pset. (pval x - p0) mod n = 0" unfolding st by auto
  next
    assume "\<exists>x \<in> set pset. (pval x - p0) mod n = 0"
    then have "0 \<in> set ?l" unfolding st by force
    with le have "hd ?l \<le> 0" by blast
    with nonneg show "hd ?l = 0" by simp
  qed
  have ex: "del_first (fb_intlist 12 [Pitch PitchClass12 0, Pitch PitchClass12 4, Pitch PitchClass12 7] 0) = [4, 7]"
    by (simp add: fb_intlist_def del_first_def)
  from s m split le nonneg zero ex show ?thesis by blast
qed

lemma fb_loop_removes_zero:
  assumes "x \<in> set pset" and "pval x = p0" and "0 < n"
  shows "hd (fb_intlist n pset p0) = 0"
proof -
  from assms(1) have ne: "pset \<noteq> []" by auto
  from assms(1,2) have "\<exists>x \<in> set pset. (pval x - p0) mod n = 0" by force
  with fb_loop_removed_entry [OF ne assms(3), of p0] show ?thesis by blast
qed

text \<open>
  C6. The claim is that \<^verbatim>\<open>fb_class\<close> removes the entry 0 and that \<^verbatim>\<open>fb_class\<close> of the pset
  {0, 4, 7} and the reference pitch 0 is the list of 4 and 7. On the code the call raises
  before the loop builds its list, so nothing is removed and no list is returned.
\<close>

theorem fb_class_fails:
  "fb_class [Pitch PitchClass12 0, Pitch PitchClass12 4, Pitch PitchClass12 7] 0 = Inl TypeError
   \<and> fb_class [Pitch PitchClass12 0, Pitch PitchClass12 4, Pitch PitchClass12 7] 0 \<noteq> Inr [4, 7]"
  by (simp add: fb_class_def type_iter_next_def)

end
